theory Spec2Isabelle
  imports Main "HOL-Library.Word" "HOL-Library.Sublist"
begin

section \<open>JavaScript strings\<close>

text \<open>
  A JavaScript string is a sequence of 16-bit UTF-16 code units; \<open>length\<close>,
  \<open>charAt\<close>, \<open>slice\<close>, \<open>startsWith\<close> and the regular expressions of
  \<^verbatim>\<open>src/lib/Utils.js\<close> (none has the \<open>u\<close> flag) all work on code units.
\<close>

type_synonym jschar = "16 word"
type_synonym jsstring = "jschar list"

section \<open>Regular expressions as backtracking matchers\<close>

text \<open>
  A matcher tried at the head of a string returns the remainders after every way it can
  match, in the order in which the backtracking engine tries them; the engine takes the
  first. Quantifiers are greedy, as they are in the source.
\<close>

type_synonym matcher = "jsstring \<Rightarrow> jsstring list"

definition rx_char :: "(jschar \<Rightarrow> bool) \<Rightarrow> matcher" where
  "rx_char p s = (case s of [] \<Rightarrow> [] | c # r \<Rightarrow> if p c then [r] else [])"

definition rx_seq :: "matcher \<Rightarrow> matcher \<Rightarrow> matcher" where
  "rx_seq a b s = concat (map b (a s))"

definition rx_opt :: "matcher \<Rightarrow> matcher" where
  "rx_opt a s = a s @ [s]"

definition rx_rep12 :: "matcher \<Rightarrow> matcher" where
  "rx_rep12 a = rx_seq a (rx_opt a)"

definition is_digit :: "jschar \<Rightarrow> bool" where
  "is_digit c \<longleftrightarrow> 0x30 \<le> c \<and> c \<le> 0x39"

definition ESC :: jschar where
  "ESC = 0x1B"

definition ansi_final :: "jschar \<Rightarrow> bool" where
  \<comment> \<open>the class \<^verbatim>\<open>[m|K]\<close>: the three characters m, | and K\<close>
  "ansi_final c \<longleftrightarrow> c = 0x6D \<or> c = 0x7C \<or> c = 0x4B"

definition rx_ansi :: matcher where
  \<comment> \<open>\<^verbatim>\<open>/\x1B\[([0-9]{1,2}(;[0-9]{1,2})?)?[m|K]/\<close>\<close>
  "rx_ansi =
     rx_seq (rx_char (\<lambda>c. c = ESC))
       (rx_seq (rx_char (\<lambda>c. c = 0x5B))
          (rx_seq
             (rx_opt (rx_seq (rx_rep12 (rx_char is_digit))
                        (rx_opt (rx_seq (rx_char (\<lambda>c. c = 0x3B)) (rx_rep12 (rx_char is_digit))))))
             (rx_char ansi_final)))"

subsection \<open>Matchers only consume input\<close>

definition consumes :: "matcher \<Rightarrow> bool" where
  "consumes m \<longleftrightarrow> (\<forall>s r. r \<in> set (m s) \<longrightarrow> suffix r s)"

lemma consumes_char: "consumes (rx_char p)"
  by (auto simp: consumes_def rx_char_def suffix_Cons split: list.splits if_splits)

lemma consumes_seq: "consumes a \<Longrightarrow> consumes b \<Longrightarrow> consumes (rx_seq a b)"
  unfolding consumes_def rx_seq_def by (fastforce intro: suffix_order.trans)

lemma consumes_opt: "consumes a \<Longrightarrow> consumes (rx_opt a)"
  unfolding consumes_def rx_opt_def by auto

lemma consumes_rep12: "consumes a \<Longrightarrow> consumes (rx_rep12 a)"
  unfolding rx_rep12_def by (intro consumes_seq consumes_opt)

lemma consumes_ansi: "consumes rx_ansi"
  unfolding rx_ansi_def
  by (intro consumes_seq consumes_opt consumes_rep12 consumes_char)

lemma rx_ansi_suffix: "r \<in> set (rx_ansi s) \<Longrightarrow> suffix r s"
  using consumes_ansi by (simp add: consumes_def)

lemma rx_ansi_head: "rx_ansi s \<noteq> [] \<Longrightarrow> \<exists>t. s = ESC # t"
  by (cases s) (auto simp: rx_ansi_def rx_seq_def rx_char_def split: if_splits)

lemma rx_ansi_shorter:
  assumes "r \<in> set (rx_ansi s)"
  shows "length r < length s"
proof -
  obtain t where s: "s = ESC # t"
    using assms rx_ansi_head [of s] by fastforce
  let ?rest = "rx_seq (rx_char (\<lambda>c. c = 0x5B))
          (rx_seq
             (rx_opt (rx_seq (rx_rep12 (rx_char is_digit))
                        (rx_opt (rx_seq (rx_char (\<lambda>c. c = 0x3B)) (rx_rep12 (rx_char is_digit))))))
             (rx_char ansi_final))"
  have "consumes ?rest"
    by (intro consumes_seq consumes_opt consumes_rep12 consumes_char)
  moreover have "r \<in> set (?rest t)"
    using assms by (simp add: s rx_ansi_def rx_seq_def [of "rx_char (\<lambda>c. c = ESC)"] rx_char_def)
  ultimately have "suffix r t"
    by (simp add: consumes_def)
  then show ?thesis
    by (auto simp: s dest: suffix_length_le)
qed

section \<open>removeANSI\<close>

text \<open>
  \<^verbatim>\<open>input.replace(/.../g, '')\<close>: the global replace scans from the left; where the
  expression matches, the match is dropped and the scan goes on behind it, elsewhere the
  character is kept and the scan moves one code unit on.
\<close>

function removeANSI :: "jsstring \<Rightarrow> jsstring" where
  "removeANSI [] = []"
| "removeANSI (c # cs) =
     (case rx_ansi (c # cs) of
        [] \<Rightarrow> c # removeANSI cs
      | r # _ \<Rightarrow> removeANSI r)"
  by pat_completeness auto
termination
proof (relation "measure length")
  fix c cs r rs
  assume "rx_ansi (c # cs) = r # rs"
  then have "r \<in> set (rx_ansi (c # cs))" by simp
  then show "(r, c # cs) \<in> measure length"
    by (simp add: rx_ansi_shorter [of r "c # cs", simplified])
qed simp_all

declare removeANSI.simps(2) [simp del]

section \<open>wordBoundaries, closestLeftBoundary, closestRightBoundary\<close>

definition is_word :: "jschar \<Rightarrow> bool" where
  \<comment> \<open>the class \<^verbatim>\<open>\w\<close>: ASCII letters, digits and the underscore\<close>
  "is_word c \<longleftrightarrow>
     (0x41 \<le> c \<and> c \<le> 0x5A) \<or> (0x61 \<le> c \<and> c \<le> 0x7A) \<or> (0x30 \<le> c \<and> c \<le> 0x39) \<or> c = 0x5F"

text \<open>
  \<^verbatim>\<open>rx.exec(input)\<close> for \<^verbatim>\<open>/\w+/g\<close>, started at \<open>lastIndex\<close>: the first word
  character at or after \<open>lastIndex\<close> starts the match, which takes every word character
  that follows. The result is \<open>match.index\<close> and \<open>match[0]\<close>; \<open>None\<close> is \<open>null\<close>.
\<close>

definition rx_word_exec :: "jsstring \<Rightarrow> nat \<Rightarrow> (nat \<times> jsstring) option" where
  "rx_word_exec input lastIndex =
     (let rest = drop lastIndex input;
          gap = takeWhile (\<lambda>c. \<not> is_word c) rest;
          after = dropWhile (\<lambda>c. \<not> is_word c) rest
      in if after = [] then None
         else Some (lastIndex + length gap, takeWhile is_word after))"

lemma rx_word_exec_advances:
  assumes "rx_word_exec input lastIndex = Some (index, m)"
  shows "lastIndex < index + length m" and "index + length m \<le> length input"
proof -
  let ?rest = "drop lastIndex input"
  let ?gap = "takeWhile (\<lambda>c. \<not> is_word c) ?rest"
  let ?after = "dropWhile (\<lambda>c. \<not> is_word c) ?rest"
  from assms have ne: "?after \<noteq> []" and idx: "index = lastIndex + length ?gap"
    and m: "m = takeWhile is_word ?after"
    by (auto simp: rx_word_exec_def Let_def split: if_splits)
  from ne have "is_word (hd ?after)"
    using hd_dropWhile [of "\<lambda>c. \<not> is_word c" ?rest] by simp
  with ne have "m \<noteq> []"
    by (cases ?after) (auto simp: m)
  then show "lastIndex < index + length m"
    by (simp add: idx)
  have "length ?gap + length ?after = length ?rest"
    by (metis length_append takeWhile_dropWhile_id)
  moreover have "length m \<le> length ?after"
    by (simp add: m length_takeWhile_le)
  moreover from ne have "lastIndex < length input"
    by (cases "lastIndex < length input") auto
  ultimately show "index + length m \<le> length input"
    by (simp add: idx)
qed

text \<open>The \<^verbatim>\<open>while ((match = rx.exec(input)))\<close> loop; the state is \<open>rx.lastIndex\<close> and \<open>words\<close>.\<close>

function wordBoundaries_loop :: "jsstring \<Rightarrow> bool \<Rightarrow> nat \<Rightarrow> nat list \<Rightarrow> nat list" where
  "wordBoundaries_loop input leftSide lastIndex words =
     (case rx_word_exec input lastIndex of
        None \<Rightarrow> words
      | Some (index, m) \<Rightarrow>
          wordBoundaries_loop input leftSide (index + length m)
            (words @ [if leftSide then index else index + length m]))"
  by pat_completeness auto
termination
proof (relation "measure (\<lambda>(input, leftSide, lastIndex, words). length input - lastIndex)")
  fix input :: jsstring and leftSide :: bool and lastIndex :: nat and words :: "nat list"
    and x2 :: "nat \<times> jsstring" and index m
  assume "rx_word_exec input lastIndex = Some x2" and "(index, m) = x2"
  then have "rx_word_exec input lastIndex = Some (index, m)" by simp
  from rx_word_exec_advances [OF this]
  show "((input, leftSide, index + length m,
           words @ [if leftSide then index else index + length m]),
          (input, leftSide, lastIndex, words))
        \<in> measure (\<lambda>(input, leftSide, lastIndex, words). length input - lastIndex)"
    by simp
qed simp

definition wordBoundaries :: "jsstring \<Rightarrow> bool \<Rightarrow> nat list" where
  "wordBoundaries input leftSide = wordBoundaries_loop input leftSide 0 []"

definition closestLeftBoundary :: "jsstring \<Rightarrow> int \<Rightarrow> nat" where
  "closestLeftBoundary input offset =
     (case find (\<lambda>x. int x < offset) (rev (wordBoundaries input True)) of
        None \<Rightarrow> 0
      | Some found \<Rightarrow> found)"

definition closestRightBoundary :: "jsstring \<Rightarrow> int \<Rightarrow> nat" where
  "closestRightBoundary input offset =
     (case find (\<lambda>x. int x > offset) (wordBoundaries input False) of
        None \<Rightarrow> length input
      | Some found \<Rightarrow> found)"

section \<open>calcWidth\<close>

definition in_ranges :: "jschar \<Rightarrow> (jschar \<times> jschar) list \<Rightarrow> bool" where
  "in_ranges c rs = list_ex (\<lambda>(lo, hi). lo \<le> c \<and> c \<le> hi) rs"

definition zero_width_ranges :: "(jschar \<times> jschar) list" where
  "zero_width_ranges = [(0x200B, 0x200D), (0xFEFF, 0xFEFF)]"

definition special_ranges :: "(jschar \<times> jschar) list" where
  "special_ranges = [(0x0591, 0x05F4), (0xFB1D, 0xFBF4)]"

definition wide_ranges :: "(jschar \<times> jschar) list" where
  "wide_ranges =
     [(0x1100, 0x115F), (0x11A3, 0x11A7), (0x11FA, 0x11FF), (0x2329, 0x232A), (0x2E80, 0x2E99),
      (0x2E9B, 0x2EF3), (0x2F00, 0x2FD5), (0x2FF0, 0x2FFB), (0x3000, 0x303E), (0x3041, 0x3096),
      (0x3099, 0x30FF), (0x3105, 0x312F), (0x3131, 0x318E), (0x3190, 0x31BA), (0x31C0, 0x31E3),
      (0x31F0, 0x31FF), (0x3200, 0x321E), (0x3220, 0x3247), (0x3250, 0x32FE), (0x3300, 0x33FF),
      (0x3400, 0x4DBF), (0x4E00, 0x9FFC), (0xA000, 0xA48C), (0xA490, 0xA4C6), (0xA960, 0xA97C),
      (0xAC00, 0xD7A3), (0xF900, 0xFA6D), (0xFA70, 0xFAD9), (0xFE10, 0xFE19), (0xFE30, 0xFE52),
      (0xFE54, 0xFE66), (0xFE68, 0xFE6B), (0xFF01, 0xFF60), (0xFFE0, 0xFFE6)]"

definition char_width :: "jschar \<Rightarrow> int" where
  \<comment> \<open>the body of the loop of \<open>calcWidth\<close>: what one character adds to \<open>acc\<close>\<close>
  "char_width c =
     (if in_ranges c zero_width_ranges then 0
      else if in_ranges c special_ranges then 0
      else if in_ranges c wide_ranges then 2
      else 1)"

definition calcWidth :: "jsstring \<Rightarrow> int" where
  "calcWidth str = fold (\<lambda>c acc. acc + char_width c) str 0"

section \<open>offsetToColRow and countLines\<close>

record position =
  row :: int
  col :: int

definition charAt :: "jsstring \<Rightarrow> nat \<Rightarrow> jsstring" where
  \<comment> \<open>\<open>charAt\<close> past the end is the empty string\<close>
  "charAt s i = (if i < length s then [s ! i] else [])"

definition walk_step :: "int \<Rightarrow> jsstring \<Rightarrow> position \<Rightarrow> position" where
  \<comment> \<open>the body of the \<open>for\<close> loop of \<open>offsetToColRow\<close>\<close>
  "walk_step maxCols chr p =
     (if chr = [0x0A] then \<lparr>row = row p + 1, col = 0\<rparr>
      else let c = col p + calcWidth chr
           in if c > maxCols then \<lparr>row = row p + 1, col = 0\<rparr>
              else \<lparr>row = row p, col = c\<rparr>)"

function walk :: "jsstring \<Rightarrow> int \<Rightarrow> int \<Rightarrow> nat \<Rightarrow> position \<Rightarrow> position" where
  "walk input offset maxCols i p =
     (if int i < offset
      then walk input offset maxCols (i + 1) (walk_step maxCols (charAt input i) p)
      else p)"
  by pat_completeness auto
termination
  by (relation "measure (\<lambda>(input, offset, maxCols, i, p). nat (offset - int i))") auto

definition offsetToColRow :: "jsstring \<Rightarrow> int \<Rightarrow> int \<Rightarrow> position" where
  "offsetToColRow input offset maxCols =
     (let ansi_input = input;
          input' = removeANSI input;
          offset' = offset - (int (length ansi_input) - int (length input'))
      in walk input' offset' maxCols 0 \<lparr>row = 0, col = 0\<rparr>)"

definition countLines :: "jsstring \<Rightarrow> int \<Rightarrow> int" where
  "countLines input maxCols = row (offsetToColRow input (int (length input)) maxCols) + 1"

section \<open>String primitives\<close>

definition is_line_terminator :: "jschar \<Rightarrow> bool" where
  "is_line_terminator c \<longleftrightarrow> c = 0x0A \<or> c = 0x0D \<or> c = 0x2028 \<or> c = 0x2029"

definition is_js_space :: "jschar \<Rightarrow> bool" where
  \<comment> \<open>what \<open>trim\<close> strips: the language's white space and line terminators\<close>
  "is_js_space c \<longleftrightarrow>
     c = 0x09 \<or> c = 0x0B \<or> c = 0x0C \<or> c = 0x20 \<or> c = 0xA0 \<or> c = 0xFEFF \<or> c = 0x1680
     \<or> (0x2000 \<le> c \<and> c \<le> 0x200A) \<or> c = 0x202F \<or> c = 0x205F \<or> c = 0x3000
     \<or> is_line_terminator c"

definition trim :: "jsstring \<Rightarrow> jsstring" where
  "trim s = rev (dropWhile is_js_space (rev (dropWhile is_js_space s)))"

definition startsWith :: "jsstring \<Rightarrow> jsstring \<Rightarrow> bool" where
  "startsWith s t \<longleftrightarrow> take (length t) s = t"

definition endsWith :: "jsstring \<Rightarrow> jsstring \<Rightarrow> bool" where
  "endsWith s t \<longleftrightarrow> length t \<le> length s \<and> drop (length s - length t) s = t"

definition slice_js :: "jsstring \<Rightarrow> nat \<Rightarrow> nat \<Rightarrow> jsstring" where
  "slice_js s b e = take (e - b) (drop b s)"

section \<open>isIncompleteInput\<close>

definition match_all_char :: "jschar \<Rightarrow> jsstring \<Rightarrow> jsstring list option" where
  \<comment> \<open>\<^verbatim>\<open>input.match(/c/g)\<close>: every match, or \<open>null\<close> when there is none\<close>
  "match_all_char c input =
     (let ms = map (\<lambda>x. [x]) (filter (\<lambda>x. x = c) input)
      in if ms = [] then None else Some ms)"

definition or_empty :: "'a list option \<Rightarrow> 'a list" where
  \<comment> \<open>\<^verbatim>\<open>x || []\<close>\<close>
  "or_empty r = (case r of None \<Rightarrow> [] | Some ms \<Rightarrow> ms)"

text \<open>
  \<^verbatim>\<open>input.split(/(\|\||\||&&)/g)\<close>: the scan looks for the leftmost operator, \<open>||\<close> being
  tried before \<open>|\<close>; the text before it is one element, the operator (the capture group)
  the next, and the scan goes on behind it. What is left at the end is the last element.
  \<open>seg\<close> is the text read since the last operator.
\<close>

fun split_ops_from :: "jsstring \<Rightarrow> jsstring \<Rightarrow> jsstring list" where
  "split_ops_from seg [] = [seg]"
| "split_ops_from seg (c # cs) =
     (case cs of
        d # ds \<Rightarrow>
          if c = 0x7C \<and> d = 0x7C then seg # [c, d] # split_ops_from [] ds
          else if c = 0x7C then seg # [c] # split_ops_from [] cs
          else if c = 0x26 \<and> d = 0x26 then seg # [c, d] # split_ops_from [] ds
          else split_ops_from (seg @ [c]) cs
      | [] \<Rightarrow>
          if c = 0x7C then seg # [c] # split_ops_from [] cs
          else split_ops_from (seg @ [c]) cs)"

definition split_ops :: "jsstring \<Rightarrow> jsstring list" where
  "split_ops input = split_ops_from [] input"

definition isIncompleteInput :: "jsstring \<Rightarrow> bool" where
  "isIncompleteInput input =
     (if trim input = [] then False
      else if length (or_empty (match_all_char 0x27 input)) mod 2 \<noteq> 0 then True
      else if length (or_empty (match_all_char 0x22 input)) mod 2 \<noteq> 0 then True
      else if trim (last (split_ops input)) = [] then True
      else if endsWith input [0x5C] \<and> \<not> endsWith input [0x5C, 0x5C] then True
      else False)"

section \<open>hasTailingWhitespace\<close>


section \<open>collectAutocompleteCandidates\<close>








section \<open>getSharedFragment\<close>

datatype js_error = TypeError

text \<open>
  The \<open>for\<close> loop over the candidates: \<open>Some None\<close> is \<^verbatim>\<open>return null\<close>,
  \<open>Some (Some oldFragment)\<close> is \<^verbatim>\<open>return oldFragment\<close>, and \<open>None\<close> means that the loop
  has run to its end.
\<close>

fun check_candidates :: "jsstring \<Rightarrow> jsstring \<Rightarrow> jsstring list \<Rightarrow> jsstring option option" where
  "check_candidates oldFragment fragment [] = None"
| "check_candidates oldFragment fragment (c # cs) =
     (if \<not> startsWith c oldFragment then Some None
      else if \<not> startsWith c fragment then Some (Some oldFragment)
      else check_candidates oldFragment fragment cs)"

text \<open>
  \<open>candidates[0]\<close> of an empty array is \<open>undefined\<close>, and reading its \<open>length\<close> throws a
  \<open>TypeError\<close>. \<open>Inr None\<close> is the result \<open>null\<close>.
\<close>

function getSharedFragment :: "jsstring \<Rightarrow> jsstring list \<Rightarrow> js_error + jsstring option" where
  "getSharedFragment fragment candidates =
     (case candidates of
        [] \<Rightarrow> Inl TypeError
      | c0 # _ \<Rightarrow>
          if length fragment \<ge> length c0 then Inr (Some fragment)
          else
            let oldFragment = fragment;
                fragment' = fragment @ slice_js c0 (length fragment) (length fragment + 1)
            in (case check_candidates oldFragment fragment' candidates of
                  Some res \<Rightarrow> Inr res
                | None \<Rightarrow> getSharedFragment fragment' candidates))"
  by pat_completeness auto
termination
  by (relation "measure (\<lambda>(fragment, candidates). length (hd candidates) - length fragment)")
     (auto simp: slice_js_def)

section \<open>Predicates of the specification\<close>

text \<open>
  An unmatched escape prefix is a non-empty text that the expression does not match but
  that it matches when continued, such as \<open>ESC\<close>, \<open>ESC [\<close> or \<open>ESC [ 3 ;\<close>. In
  \<open>prefix_before_match s\<close> such a prefix is directly followed, somewhere in \<open>s\<close>, by a
  sequence that the expression matches. \<open>no_match t\<close>: the expression matches nowhere
  in \<open>t\<close>.
\<close>

definition unmatched_escape_prefix :: "jsstring \<Rightarrow> bool" where
  "unmatched_escape_prefix p \<longleftrightarrow> p \<noteq> [] \<and> rx_ansi p = [] \<and> (\<exists>z. rx_ansi (p @ z) \<noteq> [])"

definition prefix_before_match :: "jsstring \<Rightarrow> bool" where
  "prefix_before_match s \<longleftrightarrow>
     (\<exists>a p u. s = a @ p @ u \<and> unmatched_escape_prefix p \<and> rx_ansi u \<noteq> [])"

fun no_match :: "jsstring \<Rightarrow> bool" where
  "no_match [] = True"
| "no_match (c # cs) = (rx_ansi (c # cs) = [] \<and> no_match cs)"

text \<open>
  A word run is a maximal run of word characters. \<open>i\<close> is the start index of a run when
  a word character stands at \<open>i\<close> and none stands before it; \<open>j\<close> is the end index of a
  run when a word character stands before \<open>j\<close> and none stands at \<open>j\<close>.
\<close>

definition is_run_start :: "jsstring \<Rightarrow> nat \<Rightarrow> bool" where
  "is_run_start s i \<longleftrightarrow> i < length s \<and> is_word (s ! i) \<and> (i = 0 \<or> \<not> is_word (s ! (i - 1)))"

definition is_run_end :: "jsstring \<Rightarrow> nat \<Rightarrow> bool" where
  "is_run_end s j \<longleftrightarrow>
     0 < j \<and> j \<le> length s \<and> is_word (s ! (j - 1)) \<and> (j = length s \<or> \<not> is_word (s ! j))"

text \<open>
  \<open>r\<close> is the longest common prefix of the candidates: a prefix of each of them, and
  every string that is a prefix of each of them is a prefix of \<open>r\<close>.
\<close>

definition longest_common_prefix_of :: "jsstring list \<Rightarrow> jsstring \<Rightarrow> bool" where
  "longest_common_prefix_of cs r \<longleftrightarrow>
     (\<forall>c \<in> set cs. prefix r c) \<and> (\<forall>q. (\<forall>c \<in> set cs. prefix q c) \<longrightarrow> prefix q r)"




text \<open>
  The expression behind its first character, and what makes a match end before the
  next \<open>ESC\<close>: a matcher that meets \<open>ESC\<close> fails there.
\<close>

definition rx_ansi_tail :: matcher where
  "rx_ansi_tail =
     rx_seq (rx_char (\<lambda>c. c = 0x5B))
       (rx_seq
          (rx_opt (rx_seq (rx_rep12 (rx_char is_digit))
                     (rx_opt (rx_seq (rx_char (\<lambda>c. c = 0x3B)) (rx_rep12 (rx_char is_digit))))))
          (rx_char ansi_final))"

definition stops_at_ESC :: "matcher \<Rightarrow> bool" where
  "stops_at_ESC m \<longleftrightarrow> (\<forall>x y. m (x @ ESC # y) = map (\<lambda>r. r @ ESC # y) (m x))"

text \<open>The loop only ever searches from the start of the input or from the end of a run.\<close>

definition at_boundary :: "jsstring \<Rightarrow> nat \<Rightarrow> bool" where
  "at_boundary s li \<longleftrightarrow> li = 0 \<or> length s \<le> li \<or> \<not> is_word (s ! li)"

definition starts_from :: "jsstring \<Rightarrow> nat \<Rightarrow> nat list" where
  "starts_from s li = filter (is_run_start s) [li..<length s]"

definition ends_from :: "jsstring \<Rightarrow> nat \<Rightarrow> nat list" where
  "ends_from s li = filter (is_run_end s) [Suc li..<Suc (length s)]"

section \<open>Properties of the character walk\<close>

declare walk.simps [simp del]

lemma walk_fold:
  "walk input offset maxCols i p =
     fold (\<lambda>j. walk_step maxCols (charAt input j)) [i..<nat offset] p"
proof (induction input offset maxCols i p rule: walk.induct)
  case (1 input offset maxCols i p)
  show ?case
  proof (cases "int i < offset")
    case True
    then have "[i..<nat offset] = i # [i + 1..<nat offset]"
      by (simp add: upt_conv_Cons)
    with True "1.IH" show ?thesis
      by (subst walk.simps) simp
  next
    case False
    then show ?thesis
      by (subst walk.simps) simp
  qed
qed

lemma char_width_nonneg: "0 \<le> char_width c"
  by (simp add: char_width_def)

lemma calcWidth_nonneg_aux: "0 \<le> a \<Longrightarrow> 0 \<le> fold (\<lambda>c acc. acc + char_width c) str a"
  by (induction str arbitrary: a) (simp_all add: char_width_nonneg)

lemma calcWidth_nonneg: "0 \<le> calcWidth str"
  by (simp add: calcWidth_def calcWidth_nonneg_aux)

lemma walk_step_row: "row p \<le> row (walk_step maxCols chr p)"
  by (simp add: walk_step_def Let_def)

lemma walk_step_col:
  "0 \<le> maxCols \<Longrightarrow> 0 \<le> col p \<Longrightarrow> col p \<le> maxCols \<Longrightarrow>
     0 \<le> col (walk_step maxCols chr p) \<and> col (walk_step maxCols chr p) \<le> maxCols"
  using calcWidth_nonneg [of chr] by (simp add: walk_step_def Let_def)

lemma fold_step_row:
  "row p \<le> row (fold (\<lambda>j. walk_step maxCols (charAt input j)) js p)"
proof (induction js arbitrary: p)
  case Nil
  show ?case by simp
next
  case (Cons j js)
  have "row p \<le> row (walk_step maxCols (charAt input j) p)"
    by (rule walk_step_row)
  also have "\<dots> \<le> row (fold (\<lambda>j. walk_step maxCols (charAt input j)) js
                        (walk_step maxCols (charAt input j) p))"
    by (rule Cons.IH)
  finally show ?case by simp
qed

lemma fold_step_col:
  "0 \<le> maxCols \<Longrightarrow> 0 \<le> col p \<Longrightarrow> col p \<le> maxCols \<Longrightarrow>
     0 \<le> col (fold (\<lambda>j. walk_step maxCols (charAt input j)) js p)
     \<and> col (fold (\<lambda>j. walk_step maxCols (charAt input j)) js p) \<le> maxCols"
proof (induction js arbitrary: p)
  case Nil
  then show ?case by simp
next
  case (Cons j js)
  from walk_step_col [OF Cons.prems] Cons.IH [OF Cons.prems(1)]
  show ?case by simp
qed



lemma offsetToColRow_fold:
  "offsetToColRow input offset maxCols =
     fold (\<lambda>j. walk_step maxCols (charAt (removeANSI input) j))
       [0..<nat (offset - (int (length input) - int (length (removeANSI input))))]
       \<lparr>row = 0, col = 0\<rparr>"
  by (simp add: offsetToColRow_def Let_def walk_fold)

lemma offsetToColRow_col:
  assumes "0 \<le> maxCols"
  shows "0 \<le> col (offsetToColRow input offset maxCols)"
    and "col (offsetToColRow input offset maxCols) \<le> maxCols"
  using fold_step_col [of maxCols "\<lparr>row = 0, col = 0\<rparr>" "removeANSI input"] assms
  by (simp_all add: offsetToColRow_fold)

lemma offsetToColRow_next:
  assumes "int (length input) - int (length (removeANSI input)) \<le> offset"
  shows "offsetToColRow input (offset + 1) maxCols =
           walk_step maxCols
             (charAt (removeANSI input)
                (nat (offset - (int (length input) - int (length (removeANSI input))))))
             (offsetToColRow input offset maxCols)"
proof -
  let ?d = "int (length input) - int (length (removeANSI input))"
  from assms have "nat (offset + 1 - ?d) = Suc (nat (offset - ?d))"
    by simp
  then show ?thesis
    by (simp add: offsetToColRow_fold)
qed



lemmas eval_ansi = removeANSI.simps(2) rx_ansi_def rx_seq_def rx_char_def rx_opt_def rx_rep12_def ESC_def
  ansi_final_def is_digit_def

lemmas eval_width = calcWidth_def char_width_def in_ranges_def zero_width_ranges_def
  special_ranges_def wide_ranges_def

lemmas eval_walk = offsetToColRow_def walk.simps walk_step_def charAt_def

section \<open>Claims about the cursor geometry\<close>

text \<open>
  C8. For every input and every maximum column width, \<open>countLines\<close> is the row of
  \<open>offsetToColRow\<close> at the offset \<open>length input\<close>, plus one, and it is at least 1 (the
  empty string included: the statement has no condition on the input).
\<close>

theorem countLines_row_plus_one:
  "countLines input maxCols = row (offsetToColRow input (int (length input)) maxCols) + 1
   \<and> 1 \<le> countLines input maxCols"
proof -
  have "row \<lparr>row = 0, col = 0\<rparr> \<le> row (offsetToColRow input (int (length input)) maxCols)"
    unfolding offsetToColRow_def Let_def walk_fold by (rule fold_step_row)
  then show ?thesis
    by (simp add: countLines_def)
qed

theorem countLines_row_plus_one_witness:
  "countLines [] 80 = row (offsetToColRow [] (int (length ([] :: jsstring))) 80) + 1
   \<and> 1 \<le> countLines [] 80
   \<and> countLines [0x61, 0x0A, 0x62] 80 = 2"
  using countLines_row_plus_one [of "[]" 80]
  by (simp add: countLines_def eval_walk eval_width eval_ansi)

text \<open>
  C1, as the specification states it, says that a character that crosses the boundary
  is accounted for on the new row, so that a double-width character leaves the column at
  2. The loop adds the width first and then resets the column to 0: the second of two
  double-width characters at width 3 ends at row 1, column 0.
\<close>

theorem wrap_keeps_width_counterexample:
  "calcWidth [0x4E2D] = 2
   \<and> offsetToColRow [0x4E2D, 0x4E2D] 1 3 = \<lparr>row = 0, col = 2\<rparr>
   \<and> offsetToColRow [0x4E2D, 0x4E2D] 2 3 = \<lparr>row = 1, col = 0\<rparr>
   \<and> col (offsetToColRow [0x4E2D, 0x4E2D] 2 3) \<noteq> 2"
  by (simp add: eval_walk eval_width eval_ansi)

text \<open>
  C1, amended. For a maximum column width that is not negative, the column reached
  after any number of characters lies between 0 and the maximum. One more character
  (\<open>chr\<close>, the character of the stripped input at the effective offset) changes the
  position \<open>P\<close> reached so far as follows: a newline gives row + 1 and column 0; any
  other character whose width added to the column exceeds the maximum gives row + 1 and
  column 0, its width being dropped; any other character stays on the row and adds its
  width to the column.
\<close>

theorem offsetToColRow_wrap:
  fixes input :: jsstring and offset maxCols :: int
  defines "delta \<equiv> int (length input) - int (length (removeANSI input))"
  defines "chr \<equiv> charAt (removeANSI input) (nat (offset - delta))"
  defines "P \<equiv> offsetToColRow input offset maxCols"
  defines "P' \<equiv> offsetToColRow input (offset + 1) maxCols"
  shows "(0 \<le> maxCols \<longrightarrow> 0 \<le> col P \<and> col P \<le> maxCols)
    \<and> (delta \<le> offset \<and> chr = [0x0A] \<longrightarrow> P' = \<lparr>row = row P + 1, col = 0\<rparr>)
    \<and> (delta \<le> offset \<and> chr \<noteq> [0x0A] \<and> col P + calcWidth chr > maxCols
          \<longrightarrow> P' = \<lparr>row = row P + 1, col = 0\<rparr>)
    \<and> (delta \<le> offset \<and> chr \<noteq> [0x0A] \<and> col P + calcWidth chr \<le> maxCols
          \<longrightarrow> P' = \<lparr>row = row P, col = col P + calcWidth chr\<rparr>)"
proof -
  have step: "P' = walk_step maxCols chr P" if "delta \<le> offset"
    using that offsetToColRow_next [of input offset maxCols]
    by (simp add: P'_def P_def chr_def delta_def)
  have "0 \<le> col P \<and> col P \<le> maxCols" if "0 \<le> maxCols"
    using offsetToColRow_col [OF that, of input offset] by (simp add: P_def)
  moreover have "P' = \<lparr>row = row P + 1, col = 0\<rparr>" if "delta \<le> offset" "chr = [0x0A]"
    using step that by (simp add: walk_step_def)
  moreover have "P' = \<lparr>row = row P + 1, col = 0\<rparr>"
    if "delta \<le> offset" "chr \<noteq> [0x0A]" "col P + calcWidth chr > maxCols"
    using step that by (simp add: walk_step_def)
  moreover have "P' = \<lparr>row = row P, col = col P + calcWidth chr\<rparr>"
    if "delta \<le> offset" "chr \<noteq> [0x0A]" "col P + calcWidth chr \<le> maxCols"
    using step that by (simp add: walk_step_def)
  ultimately show ?thesis by blast
qed

theorem offsetToColRow_wrap_witness:
  "(0::int) \<le> 3
   \<and> col (offsetToColRow [0x4E2D, 0x4E2D] 2 3) \<le> 3
   \<and> offsetToColRow [0x4E2D, 0x4E2D] 1 3 = \<lparr>row = 0, col = 0 + calcWidth [0x4E2D]\<rparr>
   \<and> offsetToColRow [0x4E2D, 0x4E2D] 2 3 = \<lparr>row = 1, col = 0\<rparr>
   \<and> offsetToColRow [0x61, 0x0A] 2 3 = \<lparr>row = 1, col = 0\<rparr>"
proof -
  have w: "calcWidth [0x4E2D] = 2" "calcWidth [0x61] = 1"
    by (simp_all add: eval_width)
  have r: "removeANSI [0x4E2D, 0x4E2D] = [0x4E2D, 0x4E2D]" "removeANSI [0x61, 0x0A] = [0x61, 0x0A]"
    by (simp_all add: eval_ansi)
  have p0: "offsetToColRow s 0 3 = \<lparr>row = 0, col = 0\<rparr>" if "removeANSI s = s" for s
    using that by (simp add: eval_walk)
  note a = offsetToColRow_wrap [of 3 "[0x4E2D, 0x4E2D]" 0]
  have 1: "offsetToColRow [0x4E2D, 0x4E2D] 1 3 = \<lparr>row = 0, col = 2\<rparr>"
    using a by (simp add: eval_ansi w p0 charAt_def)
  note b = offsetToColRow_wrap [of 3 "[0x4E2D, 0x4E2D]" 1]
  have 2: "offsetToColRow [0x4E2D, 0x4E2D] 2 3 = \<lparr>row = 1, col = 0\<rparr>"
    and 3: "col (offsetToColRow [0x4E2D, 0x4E2D] 1 3) \<le> 3"
    using b by (simp_all add: eval_ansi w 1 charAt_def)
  note c = offsetToColRow_wrap [of 3 "[0x61, 0x0A]" 0]
  have 4: "offsetToColRow [0x61, 0x0A] 1 3 = \<lparr>row = 0, col = 1\<rparr>"
    using c by (simp add: eval_ansi w p0 charAt_def)
  note d = offsetToColRow_wrap [of 3 "[0x61, 0x0A]" 1]
  have 5: "offsetToColRow [0x61, 0x0A] 2 3 = \<lparr>row = 1, col = 0\<rparr>"
    using d by (simp add: eval_ansi w 4 charAt_def)
  have 6: "col (offsetToColRow [0x4E2D, 0x4E2D] 2 3) \<le> 3"
    using offsetToColRow_wrap [of 3 "[0x4E2D, 0x4E2D]" 2] by simp
  show ?thesis
    by (simp add: 1 2 5 6 w)
qed



section \<open>Properties of removeANSI\<close>

lemma removeANSI_no_ESC: "ESC \<notin> set s \<Longrightarrow> removeANSI s = s"
proof (induction s)
  case Nil
  show ?case by simp
next
  case (Cons c cs)
  then have "c \<noteq> ESC" by auto
  then have "rx_ansi (c # cs) = []"
    using rx_ansi_head [of "c # cs"] by auto
  with Cons show ?case
    by (simp add: removeANSI.simps(2))
qed

lemma rx_ansi_ESC: "rx_ansi (ESC # t) = rx_ansi_tail t"
  by (simp add: rx_ansi_def rx_ansi_tail_def rx_seq_def [of "rx_char (\<lambda>c. c = ESC)"] rx_char_def)

lemma stops_char: "\<not> p ESC \<Longrightarrow> stops_at_ESC (rx_char p)"
  unfolding stops_at_ESC_def
proof (intro allI)
  fix x y
  assume "\<not> p ESC"
  then show "rx_char p (x @ ESC # y) = map (\<lambda>r. r @ ESC # y) (rx_char p x)"
    by (cases x) (simp_all add: rx_char_def)
qed

lemma stops_seq:
  assumes "stops_at_ESC a" and "stops_at_ESC b"
  shows "stops_at_ESC (rx_seq a b)"
  unfolding stops_at_ESC_def
proof (intro allI)
  fix x y
  have "rx_seq a b (x @ ESC # y) = concat (map b (map (\<lambda>r. r @ ESC # y) (a x)))"
    using assms(1) by (simp add: rx_seq_def stops_at_ESC_def)
  also have "\<dots> = concat (map (\<lambda>r. map (\<lambda>r'. r' @ ESC # y) (b r)) (a x))"
    using assms(2) by (simp add: stops_at_ESC_def comp_def)
  also have "\<dots> = map (\<lambda>r'. r' @ ESC # y) (concat (map b (a x)))"
    by (simp add: map_concat comp_def)
  finally show "rx_seq a b (x @ ESC # y) = map (\<lambda>r. r @ ESC # y) (rx_seq a b x)"
    by (simp add: rx_seq_def)
qed

lemma stops_opt: "stops_at_ESC a \<Longrightarrow> stops_at_ESC (rx_opt a)"
  by (simp add: stops_at_ESC_def rx_opt_def)

lemma stops_rep12: "stops_at_ESC a \<Longrightarrow> stops_at_ESC (rx_rep12 a)"
  unfolding rx_rep12_def by (intro stops_seq stops_opt)

lemma stops_tail: "stops_at_ESC rx_ansi_tail"
  unfolding rx_ansi_tail_def
  by (intro stops_seq stops_opt stops_rep12 stops_char)
     (simp_all add: ESC_def is_digit_def ansi_final_def)

lemma rx_ansi_next_ESC:
  "rx_ansi (ESC # x @ ESC # y) \<noteq> [] \<longleftrightarrow> rx_ansi (ESC # x) \<noteq> []"
  using stops_tail by (simp add: rx_ansi_ESC stops_at_ESC_def)

lemma removeANSI_fixed: "no_match t \<Longrightarrow> removeANSI t = t"
  by (induction t) (simp_all add: removeANSI.simps(2))

lemma removeANSI_length_le: "length (removeANSI t) \<le> length t"
proof (induction t rule: removeANSI.induct)
  case 1
  show ?case by simp
next
  case (2 c cs)
  show ?case
  proof (cases "rx_ansi (c # cs)")
    case Nil
    with "2.IH"(1) show ?thesis by (simp add: removeANSI.simps(2))
  next
    case (Cons r rs)
    then have "length r < length (c # cs)"
      using rx_ansi_shorter [of r "c # cs"] by simp
    with "2.IH"(2) [OF Cons] Cons show ?thesis by (simp add: removeANSI.simps(2))
  qed
qed

lemma removeANSI_shrinks: "\<not> no_match t \<Longrightarrow> length (removeANSI t) < length t"
proof (induction t)
  case Nil
  then show ?case by simp
next
  case (Cons c cs)
  show ?case
  proof (cases "rx_ansi (c # cs)")
    case Nil
    with Cons show ?thesis by (simp add: removeANSI.simps(2))
  next
    case (Cons r rs)
    then have "length r < length (c # cs)"
      using rx_ansi_shorter [of r "c # cs"] by simp
    with removeANSI_length_le [of r] Cons show ?thesis
      by (simp add: removeANSI.simps(2))
  qed
qed

lemma removeANSI_fixed_iff: "removeANSI t = t \<longleftrightarrow> no_match t"
  using removeANSI_fixed [of t] removeANSI_shrinks [of t] by fastforce

lemma removeANSI_keep: "ESC \<notin> set k \<Longrightarrow> removeANSI (k @ t) = k @ removeANSI t"
proof (induction k)
  case Nil
  show ?case by simp
next
  case (Cons c k)
  then have "rx_ansi (c # k @ t) = []"
    using rx_ansi_head [of "c # k @ t"] by auto
  with Cons show ?case
    by (simp add: removeANSI.simps(2))
qed

lemma prefix_before_match_suffix:
  assumes "prefix_before_match r" and "suffix r s"
  shows "prefix_before_match s"
proof -
  from assms(2) obtain b where "s = b @ r" by (auto simp: suffix_def)
  moreover from assms(1) obtain a p u where "r = a @ p @ u" "unmatched_escape_prefix p"
    "rx_ansi u \<noteq> []"
    by (auto simp: prefix_before_match_def)
  ultimately have "s = (b @ a) @ p @ u" by simp
  with \<open>unmatched_escape_prefix p\<close> \<open>rx_ansi u \<noteq> []\<close> show ?thesis
    unfolding prefix_before_match_def by blast
qed

lemma split_at_ESC:
  obtains k where "cs = k" "ESC \<notin> set k"
  | k w where "cs = k @ ESC # w" "ESC \<notin> set k"
proof (cases "ESC \<in> set cs")
  case False
  then show ?thesis using that(1) by simp
next
  case True
  then obtain k w where "cs = k @ ESC # w" "ESC \<notin> set k"
    by (auto dest: split_list_first)
  then show ?thesis using that(2) by simp
qed

lemma no_new_match:
  assumes nm: "rx_ansi (c # cs) = []" and np: "\<not> prefix_before_match (c # cs)"
  shows "rx_ansi (c # removeANSI cs) = []"
proof (cases "c = ESC")
  case False
  then show ?thesis using rx_ansi_head [of "c # removeANSI cs"] by auto
next
  case c: True
  show ?thesis
  proof (cases cs rule: split_at_ESC)
    case (1 k)
    then have "removeANSI cs = cs" by (simp add: removeANSI_no_ESC)
    with nm show ?thesis by simp
  next
    case (2 k w)
    have k: "rx_ansi (ESC # k) = []"
      using nm rx_ansi_next_ESC [of k w] by (simp add: c 2)
    have keep: "removeANSI cs = k @ removeANSI (ESC # w)"
      by (simp add: 2 removeANSI_keep)
    show ?thesis
    proof (cases "rx_ansi (ESC # w)")
      case Nil
      then have "removeANSI cs = k @ ESC # removeANSI w"
        by (simp add: keep removeANSI.simps(2))
      then show ?thesis
        using k rx_ansi_next_ESC [of k "removeANSI w"] by (simp add: c)
    next
      case (Cons r rs)
      show ?thesis
      proof (rule ccontr)
        assume "rx_ansi (c # removeANSI cs) \<noteq> []"
        then have "rx_ansi ((ESC # k) @ removeANSI (ESC # w)) \<noteq> []"
          by (simp add: c keep)
        with k have "unmatched_escape_prefix (ESC # k)"
          unfolding unmatched_escape_prefix_def by blast
        moreover have "c # cs = [] @ (ESC # k) @ ESC # w"
          by (simp add: c 2)
        moreover have "rx_ansi (ESC # w) \<noteq> []"
          by (simp add: Cons)
        ultimately have "prefix_before_match (c # cs)"
          unfolding prefix_before_match_def by blast
        with np show False by simp
      qed
    qed
  qed
qed

lemma removeANSI_no_match:
  "\<not> prefix_before_match s \<Longrightarrow> no_match (removeANSI s)"
proof (induction s rule: removeANSI.induct)
  case 1
  show ?case by simp
next
  case (2 c cs)
  show ?case
  proof (cases "rx_ansi (c # cs)")
    case Nil
    have "\<not> prefix_before_match cs"
      using "2.prems" prefix_before_match_suffix [of cs "c # cs"] by (auto simp: suffix_Cons)
    then have "no_match (removeANSI cs)"
      by (rule "2.IH"(1) [OF Nil])
    moreover have "rx_ansi (c # removeANSI cs) = []"
      using Nil "2.prems" by (rule no_new_match)
    ultimately show ?thesis
      by (simp add: removeANSI.simps(2) Nil)
  next
    case (Cons r rs)
    then have "suffix r (c # cs)"
      using rx_ansi_suffix [of r "c # cs"] by simp
    then have "\<not> prefix_before_match r"
      using "2.prems" prefix_before_match_suffix by blast
    then have "no_match (removeANSI r)"
      by (rule "2.IH"(2) [OF Cons])
    then show ?thesis
      by (simp add: removeANSI.simps(2) Cons)
  qed
qed

lemma not_prefix_before_match_Nil: "\<not> prefix_before_match []"
  by (simp add: prefix_before_match_def unmatched_escape_prefix_def)

lemma unmatched_escape_prefix_shape:
  assumes "unmatched_escape_prefix p"
  obtains k where "p = ESC # k" "ESC \<notin> set k"
proof -
  from assms obtain z where ne: "p \<noteq> []" and un: "rx_ansi p = []" and m: "rx_ansi (p @ z) \<noteq> []"
    by (auto simp: unmatched_escape_prefix_def)
  from m ne obtain k where p: "p = ESC # k"
    using rx_ansi_head [of "p @ z"] by (cases p) auto
  have "ESC \<notin> set k"
  proof
    assume "ESC \<in> set k"
    then obtain k1 k2 where k: "k = k1 @ ESC # k2"
      by (auto dest: split_list)
    from m have "rx_ansi (ESC # k1 @ ESC # (k2 @ z)) \<noteq> []"
      by (simp add: p k)
    then have "rx_ansi (ESC # k1 @ ESC # k2) \<noteq> []"
      by (simp add: rx_ansi_next_ESC)
    with un show False by (simp add: p k)
  qed
  with p show ?thesis by (rule that)
qed

lemma prefix_before_match_Cons:
  assumes "prefix_before_match (c # cs)"
  shows "(c = ESC \<and> rx_ansi (dropWhile (\<lambda>x. x \<noteq> ESC) cs) \<noteq> []
            \<and> (\<exists>z. rx_ansi (ESC # takeWhile (\<lambda>x. x \<noteq> ESC) cs @ z) \<noteq> []))
         \<or> prefix_before_match cs"
proof -
  from assms obtain a p u where s: "c # cs = a @ p @ u" and un: "unmatched_escape_prefix p"
    and m: "rx_ansi u \<noteq> []"
    by (auto simp: prefix_before_match_def)
  show ?thesis
  proof (cases a)
    case (Cons c' a')
    with s have "cs = a' @ p @ u" by simp
    with un m show ?thesis
      unfolding prefix_before_match_def by blast
  next
    case Nil
    from un obtain k where p: "p = ESC # k" and k: "ESC \<notin> set k"
      by (rule unmatched_escape_prefix_shape)
    from m obtain w where u: "u = ESC # w"
      using rx_ansi_head [of u] by auto
    from s Nil p have c: "c = ESC" and cs: "cs = k @ ESC # w"
      by (simp_all add: u)
    from k have all: "\<And>x. x \<in> set k \<Longrightarrow> x \<noteq> ESC"
      by auto
    have "takeWhile (\<lambda>x. x \<noteq> ESC) cs = k" "dropWhile (\<lambda>x. x \<noteq> ESC) cs = u"
      unfolding cs u
      by (simp_all add: takeWhile_append2 [OF all] dropWhile_append2 [OF all])
    moreover from un obtain z where "rx_ansi (ESC # k @ z) \<noteq> []"
      by (auto simp: unmatched_escape_prefix_def p)
    ultimately show ?thesis
      using c m by auto
  qed
qed

lemma not_prefix_before_match_Cons:
  assumes "c \<noteq> ESC \<or> rx_ansi (dropWhile (\<lambda>x. x \<noteq> ESC) cs) = []
            \<or> (\<forall>z. rx_ansi (ESC # takeWhile (\<lambda>x. x \<noteq> ESC) cs @ z) = [])"
    and "\<not> prefix_before_match cs"
  shows "\<not> prefix_before_match (c # cs)"
  using assms prefix_before_match_Cons [of c cs] by blast

lemma spliced_example:
  "prefix_before_match [0x1B, 0x5B, 0x1B, 0x5B, 0x6D, 0x6D]"
proof -
  have "unmatched_escape_prefix [0x1B, 0x5B]"
    unfolding unmatched_escape_prefix_def
    by (intro conjI exI [of _ "[0x6D]"]) (simp_all add: eval_ansi)
  moreover have "rx_ansi [0x1B, 0x5B, 0x6D, 0x6D] \<noteq> []"
    by (simp add: eval_ansi)
  moreover have "[0x1B, 0x5B, 0x1B, 0x5B, 0x6D, 0x6D] = [] @ [0x1B, 0x5B] @ [0x1B, 0x5B, 0x6D, 0x6D :: jschar]"
    by simp
  ultimately show ?thesis
    unfolding prefix_before_match_def by blast
qed


section \<open>Claims about removeANSI\<close>

text \<open>
  C5 states that \<open>removeANSI\<close> is idempotent on every string. The replace is one pass
  from the left, and dropping a sequence can join what stood before it to what stands
  behind it: in \<open>ESC [ ESC [ m m\<close> only the inner \<open>ESC [ m\<close> matches, and what is left is
  \<open>ESC [ m\<close>, which a second pass removes.
\<close>

theorem removeANSI_idempotent_counterexample:
  "removeANSI [0x1B, 0x5B, 0x1B, 0x5B, 0x6D, 0x6D] = [0x1B, 0x5B, 0x6D]
   \<and> removeANSI (removeANSI [0x1B, 0x5B, 0x1B, 0x5B, 0x6D, 0x6D]) = []
   \<and> removeANSI (removeANSI [0x1B, 0x5B, 0x1B, 0x5B, 0x6D, 0x6D])
       \<noteq> removeANSI [0x1B, 0x5B, 0x1B, 0x5B, 0x6D, 0x6D]"
  by (simp add: eval_ansi)

text \<open>
  C5, amended. \<open>removeANSI (removeANSI s) = removeANSI s\<close> for every string \<open>s\<close> in which
  no unmatched escape prefix is directly followed by a sequence of the matched form;
  escapes of other forms, matched or not, do not matter. For every string, a second
  pass changes the result exactly when the first result still holds a sequence of the
  matched form.
\<close>

theorem removeANSI_idempotent_unspliced:
  "(\<not> prefix_before_match s \<longrightarrow> removeANSI (removeANSI s) = removeANSI s)
   \<and> (removeANSI (removeANSI s) = removeANSI s \<longleftrightarrow> no_match (removeANSI s))"
  using removeANSI_no_match [of s] removeANSI_fixed_iff [of "removeANSI s"] by blast

theorem removeANSI_idempotent_unspliced_witness:
  "\<not> prefix_before_match [0x1B, 0x5B, 0x32, 0x4A, 0x1B, 0x5B, 0x33, 0x31, 0x6D, 0x78]
   \<and> removeANSI [0x1B, 0x5B, 0x32, 0x4A, 0x1B, 0x5B, 0x33, 0x31, 0x6D, 0x78]
       = [0x1B, 0x5B, 0x32, 0x4A, 0x78]
   \<and> removeANSI (removeANSI [0x1B, 0x5B, 0x32, 0x4A, 0x1B, 0x5B, 0x33, 0x31, 0x6D, 0x78])
       = removeANSI [0x1B, 0x5B, 0x32, 0x4A, 0x1B, 0x5B, 0x33, 0x31, 0x6D, 0x78]
   \<and> \<not> prefix_before_match [0x1B, 0x5B, 0x33, 0x38, 0x3B, 0x35, 0x3B, 0x31, 0x6D, 0x61]
   \<and> removeANSI [0x1B, 0x5B, 0x33, 0x38, 0x3B, 0x35, 0x3B, 0x31, 0x6D, 0x61]
       = [0x1B, 0x5B, 0x33, 0x38, 0x3B, 0x35, 0x3B, 0x31, 0x6D, 0x61]
   \<and> removeANSI (removeANSI [0x1B, 0x5B, 0x33, 0x38, 0x3B, 0x35, 0x3B, 0x31, 0x6D, 0x61])
       = removeANSI [0x1B, 0x5B, 0x33, 0x38, 0x3B, 0x35, 0x3B, 0x31, 0x6D, 0x61]
   \<and> no_match (removeANSI [0x1B, 0x5B, 0x32, 0x4A, 0x1B, 0x5B, 0x33, 0x31, 0x6D, 0x78])"
proof -
  let ?s = "[0x1B, 0x5B, 0x32, 0x4A, 0x1B, 0x5B, 0x33, 0x31, 0x6D, 0x78] :: jsstring"
  let ?t = "[0x1B, 0x5B, 0x33, 0x38, 0x3B, 0x35, 0x3B, 0x31, 0x6D, 0x61] :: jsstring"
  have s: "\<not> prefix_before_match ?s"
    by (intro not_prefix_before_match_Cons not_prefix_before_match_Nil)
       (simp_all add: eval_ansi)
  have t: "\<not> prefix_before_match ?t"
    by (intro not_prefix_before_match_Cons not_prefix_before_match_Nil)
       (simp_all add: eval_ansi)
  have vs: "removeANSI ?s = [0x1B, 0x5B, 0x32, 0x4A, 0x78]" and vt: "removeANSI ?t = ?t"
    by (simp_all add: eval_ansi)
  from removeANSI_idempotent_unspliced [of ?s] s
  have 1: "removeANSI (removeANSI ?s) = removeANSI ?s" and 2: "no_match (removeANSI ?s)"
    by blast+
  from removeANSI_idempotent_unspliced [of ?t] t
  have 3: "removeANSI (removeANSI ?t) = removeANSI ?t"
    by blast
  from s t vs vt 1 2 3 show ?thesis by simp
qed

text \<open>
  C7 states that only sequences that end in \<open>m\<close> or \<open>K\<close> are removed. The class
  \<^verbatim>\<open>[m|K]\<close> of the expression holds the bar as a third character, so a sequence that
  ends in \<open>|\<close> is removed as well: \<open>a ESC [ | b\<close> becomes \<open>ab\<close>, and \<open>ESC [ 3 1 |\<close>
  becomes the empty string.
\<close>

theorem removeANSI_bar_final:
  "removeANSI [0x61, 0x1B, 0x5B, 0x7C, 0x62] = [0x61, 0x62]
   \<and> removeANSI [0x1B, 0x5B, 0x33, 0x31, 0x7C] = []"
  by (simp add: eval_ansi)

section \<open>Properties of getSharedFragment\<close>

declare getSharedFragment.simps [simp del]

lemma startsWith_prefix: "startsWith s t \<longleftrightarrow> prefix t s"
proof
  assume "startsWith s t"
  then have "t = take (length t) s" by (simp add: startsWith_def)
  then show "prefix t s" by (metis take_is_prefix)
next
  assume "prefix t s"
  then show "startsWith s t" by (auto simp: startsWith_def prefix_def)
qed

lemma check_candidates_None:
  "check_candidates old new cs = None \<Longrightarrow> \<forall>c \<in> set cs. startsWith c new"
  by (induction cs) (auto split: if_splits)

lemma check_candidates_Some:
  "check_candidates old new cs = Some res \<Longrightarrow> \<forall>c \<in> set cs. startsWith c old \<Longrightarrow>
     res = Some old \<and> (\<exists>c \<in> set cs. \<not> startsWith c new)"
  by (induction cs) (auto split: if_splits)

lemma slice_one: "n < length s \<Longrightarrow> slice_js s n (n + 1) = [s ! n]"
  by (simp add: slice_js_def Cons_nth_drop_Suc [symmetric])

lemma prefix_extend:
  assumes "prefix p c" and "length p < length c"
  shows "prefix (p @ [c ! length p]) c"
proof -
  from assms obtain r where c: "c = p @ r" by (auto simp: prefix_def)
  with assms(2) obtain x xs where "r = x # xs" by (cases r) auto
  with c show ?thesis by simp
qed

lemma getSharedFragment_lcp:
  "candidates \<noteq> [] \<Longrightarrow> \<forall>c \<in> set candidates. startsWith c fragment \<Longrightarrow>
     \<exists>r. getSharedFragment fragment candidates = Inr (Some r) \<and> prefix fragment r
         \<and> longest_common_prefix_of candidates r"
proof (induction fragment candidates rule: getSharedFragment.induct)
  case (1 fragment candidates)
  from "1.prems"(1) obtain c0 cs where cands: "candidates = c0 # cs"
    by (cases candidates) auto
  from "1.prems"(2) have all: "\<forall>c \<in> set candidates. prefix fragment c"
    by (simp add: startsWith_prefix)
  then have p0: "prefix fragment c0" by (simp add: cands)
  show ?case
  proof (cases "length c0 \<le> length fragment")
    case True
    with p0 have "fragment = c0"
      by (metis prefix_length_le le_antisym prefix_length_prefix prefix_order.refl prefix_order.antisym)
    then have "longest_common_prefix_of candidates fragment"
      using all by (auto simp: longest_common_prefix_of_def cands)
    moreover have "getSharedFragment fragment candidates = Inr (Some fragment)"
      using True by (subst getSharedFragment.simps) (simp add: cands)
    ultimately show ?thesis by simp
  next
    case False
    define new where "new = fragment @ slice_js c0 (length fragment) (length fragment + 1)"
    from False have new: "new = fragment @ [c0 ! length fragment]"
      using slice_one [of "length fragment" c0] by (simp add: new_def)
    from False p0 have new0: "prefix new c0"
      by (simp add: new prefix_extend)
    have unfold: "getSharedFragment fragment candidates =
        (case check_candidates fragment new candidates of
           Some res \<Rightarrow> Inr res
         | None \<Rightarrow> getSharedFragment new candidates)"
      unfolding new_def using False
      by (subst getSharedFragment.simps) (simp only: cands list.case Let_def if_False)
    show ?thesis
    proof (cases "check_candidates fragment new candidates")
      case None
      then have "\<forall>c \<in> set candidates. startsWith c new"
        by (rule check_candidates_None)
      from "1.IH" [OF cands False refl new_def None "1.prems"(1) this]
      obtain r where "getSharedFragment new candidates = Inr (Some r)" "prefix new r"
        "longest_common_prefix_of candidates r"
        by auto
      moreover have "prefix fragment new" by (simp add: new)
      ultimately show ?thesis
        using None unfold by (auto intro: prefix_order.trans)
    next
      case (Some res)
      from check_candidates_Some [OF Some "1.prems"(2)]
      obtain c where res: "res = Some fragment" and c: "c \<in> set candidates" "\<not> prefix new c"
        by (auto simp: startsWith_prefix)
      have "prefix q fragment" if q: "\<forall>c \<in> set candidates. prefix q c" for q
      proof -
        from q c(1) have "prefix q c" by blast
        from q have "prefix q c0" by (simp add: cands)
        with new0 have "prefix q new \<or> prefix new q"
          by (meson prefix_same_cases)
        moreover have "\<not> prefix new q"
          using \<open>prefix q c\<close> c(2) by (blast intro: prefix_order.trans)
        ultimately have "prefix q new" by simp
        moreover have "q \<noteq> new" using \<open>\<not> prefix new q\<close> by auto
        ultimately show ?thesis by (simp add: new prefix_snoc)
      qed
      then have "longest_common_prefix_of candidates fragment"
        using all by (simp add: longest_common_prefix_of_def)
      then show ?thesis
        using Some unfold res by simp
    qed
  qed
qed


lemma getSharedFragment_null_sound:
  assumes "getSharedFragment fragment candidates = Inr None"
  shows "\<exists>c \<in> set candidates. \<not> startsWith c fragment"
proof (rule ccontr)
  assume "\<not> (\<exists>c \<in> set candidates. \<not> startsWith c fragment)"
  then have all: "\<forall>c \<in> set candidates. startsWith c fragment" by simp
  from assms have "candidates \<noteq> []"
    by (subst (asm) getSharedFragment.simps) (auto split: list.splits)
  from getSharedFragment_lcp [OF this all] assms show False by auto
qed

lemmas eval_shared = getSharedFragment.simps startsWith_def slice_js_def

section \<open>Claims about getSharedFragment\<close>

text \<open>
  C3. For every non-empty candidate list in which every candidate starts with the given
  prefix, \<open>getSharedFragment\<close> returns a string (not \<open>null\<close>, and no error) that extends
  the prefix and is the longest common prefix of all candidates. In particular the
  result for the prefix \<open>""\<close> is \<open>"g"\<close> on \<open>["git", "grep"]\<close> and \<open>"git"\<close> on
  \<open>["git", "git"]\<close>.
\<close>

theorem getSharedFragment_longest_common_prefix:
  assumes "candidates \<noteq> []" and "\<forall>c \<in> set candidates. startsWith c fragment"
  shows "(\<exists>r. getSharedFragment fragment candidates = Inr (Some r) \<and> prefix fragment r
            \<and> longest_common_prefix_of candidates r)
    \<and> getSharedFragment [] [[0x67, 0x69, 0x74], [0x67, 0x72, 0x65, 0x70]] = Inr (Some [0x67])
    \<and> getSharedFragment [] [[0x67, 0x69, 0x74], [0x67, 0x69, 0x74]]
        = Inr (Some [0x67, 0x69, 0x74])"
proof -
  have "getSharedFragment [] [[0x67, 0x69, 0x74], [0x67, 0x72, 0x65, 0x70]] = Inr (Some [0x67])"
    by (simp add: eval_shared)
  moreover have "getSharedFragment [] [[0x67, 0x69, 0x74], [0x67, 0x69, 0x74]]
        = Inr (Some [0x67, 0x69, 0x74])"
    by (simp add: eval_shared)
  ultimately show ?thesis
    using getSharedFragment_lcp [OF assms] by simp
qed

theorem getSharedFragment_longest_common_prefix_witness:
  "[[0x67, 0x69, 0x74], [0x67, 0x72, 0x65, 0x70]] \<noteq> ([] :: jsstring list)
   \<and> startsWith [0x67, 0x69, 0x74] [0x67] \<and> startsWith [0x67, 0x72, 0x65, 0x70] [0x67]
   \<and> getSharedFragment [0x67] [[0x67, 0x69, 0x74], [0x67, 0x72, 0x65, 0x70]] = Inr (Some [0x67])
   \<and> longest_common_prefix_of [[0x67, 0x69, 0x74], [0x67, 0x72, 0x65, 0x70]] [0x67]"
proof -
  have ne: "[[0x67, 0x69, 0x74], [0x67, 0x72, 0x65, 0x70]] \<noteq> ([] :: jsstring list)"
    by simp
  have st: "startsWith [0x67, 0x69, 0x74] [0x67]" "startsWith [0x67, 0x72, 0x65, 0x70] [0x67]"
    by (simp_all add: startsWith_def)
  then have all: "\<forall>c \<in> set [[0x67, 0x69, 0x74], [0x67, 0x72, 0x65, 0x70]]. startsWith c [0x67]"
    by simp
  have val: "getSharedFragment [0x67] [[0x67, 0x69, 0x74], [0x67, 0x72, 0x65, 0x70]]
      = Inr (Some [0x67])"
    by (simp add: eval_shared)
  from getSharedFragment_longest_common_prefix [OF ne all]
  have "longest_common_prefix_of [[0x67, 0x69, 0x74], [0x67, 0x72, 0x65, 0x70]] [0x67]"
    by (simp add: val)
  with ne st val show ?thesis by simp
qed

text \<open>
  C6 states that the result is \<open>null\<close> exactly when some candidate does not start with
  the prefix, also when the prefix is at least as long as the first candidate. The
  function returns the prefix before it looks at any candidate when the prefix is at
  least as long as the first candidate: for \<open>"xyz"\<close> and \<open>["git"]\<close> the result is
  \<open>"xyz"\<close>. The loop also returns the old fragment at the first candidate that does not
  extend, without looking at the candidates behind it: for \<open>"g"\<close> and
  \<open>["git", "grep", "x"]\<close> the result is \<open>"g"\<close>. The example of the claim, \<open>"x"\<close> and
  \<open>["git"]\<close>, does give \<open>null\<close>.
\<close>

theorem getSharedFragment_mismatch_not_null:
  "\<not> startsWith [0x67, 0x69, 0x74] [0x78, 0x79, 0x7A]
   \<and> getSharedFragment [0x78, 0x79, 0x7A] [[0x67, 0x69, 0x74]] = Inr (Some [0x78, 0x79, 0x7A])
   \<and> \<not> startsWith [0x78] [0x67]
   \<and> getSharedFragment [0x67] [[0x67, 0x69, 0x74], [0x67, 0x72, 0x65, 0x70], [0x78]]
       = Inr (Some [0x67])
   \<and> getSharedFragment [0x78] [[0x67, 0x69, 0x74]] = Inr None"
  by (simp add: eval_shared)

section \<open>Properties of wordBoundaries\<close>

declare wordBoundaries_loop.simps [simp del]

lemma rx_word_exec_None:
  assumes "rx_word_exec s li = None" and "li \<le> i" and "i < length s"
  shows "\<not> is_word (s ! i)"
proof -
  from assms(1) have "dropWhile (\<lambda>c. \<not> is_word c) (drop li s) = []"
    by (simp add: rx_word_exec_def Let_def split: if_splits)
  then have "\<forall>c \<in> set (drop li s). \<not> is_word c"
    by (simp add: dropWhile_eq_Nil_conv)
  moreover have "s ! i \<in> set (drop li s)"
  proof -
    have "drop li s ! (i - li) = s ! i"
      using assms(2,3) by simp
    moreover have "i - li < length (drop li s)"
      using assms(2,3) by simp
    ultimately show ?thesis
      by (metis nth_mem)
  qed
  ultimately show ?thesis by blast
qed

lemma rx_word_exec_Some:
  assumes "rx_word_exec s li = Some (idx, m)"
  shows "li \<le> idx" and "idx < idx + length m" and "idx + length m \<le> length s"
    and "\<And>i. li \<le> i \<Longrightarrow> i < idx \<Longrightarrow> \<not> is_word (s ! i)"
    and "\<And>i. idx \<le> i \<Longrightarrow> i < idx + length m \<Longrightarrow> is_word (s ! i)"
    and "idx + length m < length s \<Longrightarrow> \<not> is_word (s ! (idx + length m))"
proof -
  let ?rest = "drop li s"
  let ?gap = "takeWhile (\<lambda>c. \<not> is_word c) ?rest"
  let ?after = "dropWhile (\<lambda>c. \<not> is_word c) ?rest"
  from assms have ne: "?after \<noteq> []" and idx: "idx = li + length ?gap"
    and m: "m = takeWhile is_word ?after"
    by (auto simp: rx_word_exec_def Let_def split: if_splits)
  show "li \<le> idx" by (simp add: idx)
  from rx_word_exec_advances [OF assms] show e: "idx + length m \<le> length s" by simp
  have after: "?after = drop idx s"
    by (simp add: dropWhile_eq_drop idx add.commute)
  have m': "takeWhile is_word (drop idx s) = m"
    by (simp add: m after)
  from ne have "is_word (hd ?after)"
    using hd_dropWhile [of "\<lambda>c. \<not> is_word c" ?rest] by simp
  with ne have "m \<noteq> []"
    by (cases ?after) (auto simp: m)
  then show "idx < idx + length m" by simp
  show "\<not> is_word (s ! i)" if "li \<le> i" "i < idx" for i
  proof -
    from that have l: "i - li < length ?gap" by (simp add: idx less_diff_conv2)
    then have "?gap ! (i - li) = ?rest ! (i - li)"
      by (rule takeWhile_nth)
    also have "\<dots> = s ! i"
      using that e by (simp add: idx)
    finally have "s ! i \<in> set ?gap"
      using l by (metis nth_mem)
    then show ?thesis
      by (auto dest: set_takeWhileD)
  qed
  show "is_word (s ! i)" if "idx \<le> i" "i < idx + length m" for i
  proof -
    from that have l: "i - idx < length m" by (simp add: less_diff_conv2)
    then have "m ! (i - idx) = ?after ! (i - idx)"
      unfolding m by (rule takeWhile_nth)
    also have "\<dots> = s ! i"
      using that e by (simp add: after)
    finally have "s ! i \<in> set m"
      using l by (metis nth_mem)
    then show ?thesis
      unfolding m by (auto dest: set_takeWhileD)
  qed
  show "\<not> is_word (s ! (idx + length m))" if "idx + length m < length s"
  proof -
    have "length ?after = length s - idx"
      by (simp add: after)
    with that have "length (takeWhile is_word ?after) < length ?after"
      unfolding after m' by linarith
    then have "\<not> is_word (?after ! length (takeWhile is_word ?after))"
      by (rule nth_length_takeWhile)
    then have "\<not> is_word (drop idx s ! length m)"
      unfolding after m' .
    then show ?thesis
      using that by simp
  qed
qed

lemma at_boundary_after_match:
  assumes "rx_word_exec s li = Some (idx, m)"
  shows "at_boundary s (idx + length m)"
  using rx_word_exec_Some(6) [OF assms] by (auto simp: at_boundary_def not_le)

lemma starts_none:
  assumes "rx_word_exec s li = None"
  shows "starts_from s li = []"
  using rx_word_exec_None [OF assms]
  by (auto simp: starts_from_def filter_empty_conv is_run_start_def)

lemma ends_none:
  assumes "rx_word_exec s li = None"
  shows "ends_from s li = []"
proof -
  have "\<not> is_run_end s j" if "Suc li \<le> j" for j
  proof
    assume "is_run_end s j"
    then have "j - 1 < length s" "is_word (s ! (j - 1))"
      by (auto simp: is_run_end_def)
    moreover from that have "li \<le> j - 1" by simp
    ultimately show False
      using rx_word_exec_None [OF assms] by blast
  qed
  then show ?thesis
    unfolding ends_from_def filter_empty_conv by (simp del: upt_Suc)
qed

lemma starts_match:
  assumes ex: "rx_word_exec s li = Some (idx, m)" and b: "at_boundary s li"
  shows "starts_from s li = idx # starts_from s (idx + length m)"
proof -
  note f = rx_word_exec_Some [OF ex]
  let ?e = "idx + length m"
  have split: "[li..<length s] = [li..<idx] @ idx # [Suc idx..<?e] @ [?e..<length s]"
  proof -
    have "[li..<length s] = [li..<idx] @ [idx..<length s]"
      using f(1,2,3) by (metis le_add_diff_inverse upt_add_eq_append le_trans less_imp_le)
    moreover have "[idx..<length s] = [idx..<?e] @ [?e..<length s]"
      using f(2,3) by (metis le_add_diff_inverse upt_add_eq_append less_imp_le)
    moreover have "[idx..<?e] = idx # [Suc idx..<?e]"
      using f(2) by (simp add: upt_conv_Cons)
    ultimately show ?thesis by simp
  qed
  have 1: "filter (is_run_start s) [li..<idx] = []"
    using f(4) by (auto simp: filter_empty_conv is_run_start_def)
  have 2: "is_run_start s idx"
  proof -
    have w: "is_word (s ! idx)" using f(2,5) by simp
    have "idx = 0 \<or> \<not> is_word (s ! (idx - 1))"
    proof (cases "li < idx")
      case True
      then show ?thesis using f(4) [of "idx - 1"] by simp
    next
      case False
      with f(1) have "idx = li" by simp
      with b w f(2,3) show ?thesis by (auto simp: at_boundary_def)
    qed
    moreover have "idx < length s" using f(2,3) by linarith
    ultimately show ?thesis using w by (simp add: is_run_start_def)
  qed
  have 3: "filter (is_run_start s) [Suc idx..<?e] = []"
  proof -
    have "\<not> is_run_start s i" if "Suc idx \<le> i" "i < ?e" for i
      using f(5) [of "i - 1"] that by (auto simp: is_run_start_def)
    then show ?thesis by (auto simp: filter_empty_conv)
  qed
  show ?thesis
    unfolding starts_from_def split by (simp add: 1 2 3)
qed

lemma ends_match:
  assumes ex: "rx_word_exec s li = Some (idx, m)"
  shows "ends_from s li = (idx + length m) # ends_from s (idx + length m)"
proof -
  note f = rx_word_exec_Some [OF ex]
  let ?e = "idx + length m"
  have split: "[Suc li..<Suc (length s)] = [Suc li..<?e] @ ?e # [Suc ?e..<Suc (length s)]"
  proof -
    have "Suc li \<le> ?e" using f(1,2) by linarith
    moreover have "?e \<le> Suc (length s)" using f(3) by linarith
    ultimately have "[Suc li..<Suc (length s)] = [Suc li..<?e] @ [?e..<Suc (length s)]"
      by (metis le_add_diff_inverse upt_add_eq_append)
    moreover have "[?e..<Suc (length s)] = ?e # [Suc ?e..<Suc (length s)]"
      using f(3) by (metis upt_conv_Cons le_imp_less_Suc)
    ultimately show ?thesis by simp
  qed
  have 1: "filter (is_run_end s) [Suc li..<?e] = []"
  proof -
    have "\<not> is_run_end s j" if "Suc li \<le> j" "j < ?e" for j
    proof (cases "j \<le> idx")
      case True
      then show ?thesis using f(4) [of "j - 1"] that by (auto simp: is_run_end_def)
    next
      case False
      then show ?thesis using f(5) [of j] f(3) that by (auto simp: is_run_end_def)
    qed
    then show ?thesis by (auto simp: filter_empty_conv)
  qed
  have 2: "is_run_end s ?e"
  proof -
    have "0 < ?e" "?e - 1 < ?e" "idx \<le> ?e - 1" using f(2) by linarith+
    with f(3) f(5) [of "?e - 1"] f(6) show ?thesis
      by (auto simp: is_run_end_def)
  qed
  show ?thesis
    unfolding ends_from_def split by (simp add: 1 2)
qed

lemma wordBoundaries_loop_left:
  "at_boundary s li \<Longrightarrow>
     wordBoundaries_loop s True li words = words @ starts_from s li"
proof (induction s True li words rule: wordBoundaries_loop.induct)
  case (1 s li words)
  show ?case
  proof (cases "rx_word_exec s li")
    case None
    then show ?thesis
      by (subst wordBoundaries_loop.simps) (simp add: starts_none)
  next
    case (Some x)
    obtain idx m where x: "x = (idx, m)" by (cases x)
    with Some have ex: "rx_word_exec s li = Some (idx, m)" by simp
    from "1.hyps" [OF Some x [symmetric] at_boundary_after_match [OF ex]]
    show ?thesis
      by (subst wordBoundaries_loop.simps) (simp add: ex starts_match [OF ex "1.prems"])
  qed
qed

lemma wordBoundaries_loop_right:
  "wordBoundaries_loop s False li words = words @ ends_from s li"
proof (induction s False li words rule: wordBoundaries_loop.induct)
  case (1 s li words)
  show ?case
  proof (cases "rx_word_exec s li")
    case None
    then show ?thesis
      by (subst wordBoundaries_loop.simps) (simp add: ends_none)
  next
    case (Some x)
    obtain idx m where x: "x = (idx, m)" by (cases x)
    with Some have ex: "rx_word_exec s li = Some (idx, m)" by simp
    from "1.hyps" [OF Some x [symmetric]]
    show ?thesis
      by (subst wordBoundaries_loop.simps) (simp add: ex ends_match [OF ex])
  qed
qed

lemma wordBoundaries_left: "wordBoundaries s True = starts_from s 0"
  by (simp add: wordBoundaries_def wordBoundaries_loop_left at_boundary_def)

lemma wordBoundaries_right: "wordBoundaries s False = ends_from s 0"
  by (simp add: wordBoundaries_def wordBoundaries_loop_right)

lemma find_rev_sorted:
  fixes xs :: "nat list"
  assumes "sorted xs" and "find Q (rev xs) = Some y"
  shows "y \<in> set xs \<and> Q y \<and> (\<forall>x \<in> set xs. Q x \<longrightarrow> x \<le> y)"
  using assms
proof (induction xs rule: rev_induct)
  case Nil
  then show ?case by simp
next
  case (snoc x xs)
  then show ?case
    by (cases "Q x") (auto simp: sorted_append)
qed

lemma find_sorted:
  fixes xs :: "nat list"
  assumes "sorted xs" and "find Q xs = Some y"
  shows "y \<in> set xs \<and> Q y \<and> (\<forall>x \<in> set xs. Q x \<longrightarrow> y \<le> x)"
  using assms
proof (induction xs)
  case Nil
  then show ?case by simp
next
  case (Cons x xs)
  then show ?case
    by (cases "Q x") auto
qed

lemma set_starts: "set (wordBoundaries s True) = {i. is_run_start s i}"
  by (auto simp: wordBoundaries_left starts_from_def is_run_start_def)

lemma set_ends: "set (wordBoundaries s False) = {j. is_run_end s j}"
  by (auto simp: wordBoundaries_right ends_from_def is_run_end_def Suc_le_eq less_Suc_eq_le)

lemma sorted_starts: "sorted (wordBoundaries s True)"
  by (simp add: wordBoundaries_left starts_from_def sorted_wrt_filter)

lemma sorted_ends: "sorted (wordBoundaries s False)"
  by (simp add: wordBoundaries_right ends_from_def sorted_wrt_filter del: upt_Suc)

lemma closestLeftBoundary_none:
  assumes "\<forall>i. is_run_start input i \<longrightarrow> \<not> int i < offset"
  shows "closestLeftBoundary input offset = 0"
proof -
  from assms have "find (\<lambda>x. int x < offset) (rev (wordBoundaries input True)) = None"
    by (simp add: find_None_iff set_starts)
  then show ?thesis by (simp add: closestLeftBoundary_def)
qed

lemma closestLeftBoundary_some:
  assumes "is_run_start input k" and "int k < offset"
  shows "is_run_start input (closestLeftBoundary input offset)"
    and "int (closestLeftBoundary input offset) < offset"
    and "\<And>i. is_run_start input i \<Longrightarrow> int i < offset \<Longrightarrow> i \<le> closestLeftBoundary input offset"
proof -
  from assms have "find (\<lambda>x. int x < offset) (rev (wordBoundaries input True)) \<noteq> None"
    by (auto simp: find_None_iff set_starts)
  then obtain y where y: "find (\<lambda>x. int x < offset) (rev (wordBoundaries input True)) = Some y"
    by auto
  then have L: "closestLeftBoundary input offset = y"
    by (simp add: closestLeftBoundary_def)
  note m = find_rev_sorted [OF sorted_starts y, unfolded set_starts]
  from m show "is_run_start input (closestLeftBoundary input offset)"
    and "int (closestLeftBoundary input offset) < offset"
    by (simp_all add: L)
  from m show "i \<le> closestLeftBoundary input offset"
    if "is_run_start input i" "int i < offset" for i
    using that by (simp add: L)
qed

lemma closestRightBoundary_none:
  assumes "\<forall>j. is_run_end input j \<longrightarrow> \<not> offset < int j"
  shows "closestRightBoundary input offset = length input"
proof -
  from assms have "find (\<lambda>x. int x > offset) (wordBoundaries input False) = None"
    by (simp add: find_None_iff set_ends)
  then show ?thesis by (simp add: closestRightBoundary_def)
qed

lemma closestRightBoundary_some:
  assumes "is_run_end input k" and "offset < int k"
  shows "is_run_end input (closestRightBoundary input offset)"
    and "offset < int (closestRightBoundary input offset)"
    and "\<And>j. is_run_end input j \<Longrightarrow> offset < int j \<Longrightarrow> closestRightBoundary input offset \<le> j"
proof -
  from assms have "find (\<lambda>x. int x > offset) (wordBoundaries input False) \<noteq> None"
    by (auto simp: find_None_iff set_ends)
  then obtain y where y: "find (\<lambda>x. int x > offset) (wordBoundaries input False) = Some y"
    by auto
  then have R: "closestRightBoundary input offset = y"
    by (simp add: closestRightBoundary_def)
  note m = find_sorted [OF sorted_ends y, unfolded set_ends]
  from m show "is_run_end input (closestRightBoundary input offset)"
    and "offset < int (closestRightBoundary input offset)"
    by (simp_all add: R)
  from m show "closestRightBoundary input offset \<le> j"
    if "is_run_end input j" "offset < int j" for j
    using that by (simp add: R)
qed

lemma closest_boundaries_in_range:
  "closestLeftBoundary input offset \<le> length input"
  "closestRightBoundary input offset \<le> length input"
proof -
  show "closestLeftBoundary input offset \<le> length input"
  proof (cases "\<exists>k. is_run_start input k \<and> int k < offset")
    case True
    then obtain k where "is_run_start input k" "int k < offset" by blast
    from closestLeftBoundary_some(1) [OF this] show ?thesis
      by (simp add: is_run_start_def)
  next
    case False
    then show ?thesis by (simp add: closestLeftBoundary_none)
  qed
  show "closestRightBoundary input offset \<le> length input"
  proof (cases "\<exists>k. is_run_end input k \<and> offset < int k")
    case True
    then obtain k where "is_run_end input k" "offset < int k" by blast
    from closestRightBoundary_some(1) [OF this] show ?thesis
      by (simp add: is_run_end_def)
  next
    case False
    then show ?thesis by (simp add: closestRightBoundary_none)
  qed
qed

lemmas eval_word = closestLeftBoundary_def closestRightBoundary_def wordBoundaries_def
  wordBoundaries_loop.simps rx_word_exec_def is_word_def

section \<open>Claims about the word boundaries\<close>

text \<open>
  C9. \<open>closestLeftBoundary\<close> and \<open>closestRightBoundary\<close> are total (the loop of
  \<open>wordBoundaries\<close> terminates). With \<open>L\<close> and \<open>R\<close> their results for an input and an
  integer offset: when no word run starts at an index below the offset, \<open>L\<close> is 0,
  otherwise \<open>L\<close> is the largest start index of a run that is below the offset; when no
  word run ends at an index above the offset, \<open>R\<close> is the length of the input,
  otherwise \<open>R\<close> is the smallest end index of a run that is above the offset; and both
  lie between 0 and the length of the input.
\<close>

theorem closest_boundaries:
  fixes input :: jsstring and offset :: int
  defines "L \<equiv> closestLeftBoundary input offset"
  defines "R \<equiv> closestRightBoundary input offset"
  shows "((\<forall>i. is_run_start input i \<longrightarrow> \<not> int i < offset) \<longrightarrow> L = 0)
    \<and> ((\<exists>i. is_run_start input i \<and> int i < offset) \<longrightarrow>
          is_run_start input L \<and> int L < offset
          \<and> (\<forall>i. is_run_start input i \<and> int i < offset \<longrightarrow> i \<le> L))
    \<and> ((\<forall>j. is_run_end input j \<longrightarrow> \<not> offset < int j) \<longrightarrow> R = length input)
    \<and> ((\<exists>j. is_run_end input j \<and> offset < int j) \<longrightarrow>
          is_run_end input R \<and> offset < int R
          \<and> (\<forall>j. is_run_end input j \<and> offset < int j \<longrightarrow> R \<le> j))
    \<and> L \<le> length input \<and> R \<le> length input"
  unfolding L_def R_def
  using closestLeftBoundary_none [of input offset] closestRightBoundary_none [of input offset]
    closestLeftBoundary_some [of input _ offset] closestRightBoundary_some [of input _ offset]
    closest_boundaries_in_range [of input offset]
  by blast

theorem closest_boundaries_witness:
  "is_run_start [0x20, 0x41, 0x42, 0x20, 0x20, 0x5F, 0x2D, 0x30] 5
   \<and> is_run_end [0x20, 0x41, 0x42, 0x20, 0x20, 0x5F, 0x2D, 0x30] 8
   \<and> closestLeftBoundary [0x20, 0x41, 0x42, 0x20, 0x20, 0x5F, 0x2D, 0x30] 6 = 5
   \<and> closestRightBoundary [0x20, 0x41, 0x42, 0x20, 0x20, 0x5F, 0x2D, 0x30] 6 = 8
   \<and> closestLeftBoundary [0x20, 0x41, 0x42] 1 = 0
   \<and> closestRightBoundary [0x41, 0x42, 0x20] 2 = 3"
proof -
  let ?s = "[0x20, 0x41, 0x42, 0x20, 0x20, 0x5F, 0x2D, 0x30] :: jsstring"
  have s: "is_run_start ?s 5" "int 5 < 6"
    by (simp_all add: is_run_start_def is_word_def)
  have e: "is_run_end ?s 8" "6 < int 8" "\<not> is_run_end ?s 7"
    by (simp_all add: is_run_end_def is_word_def)
  note t = closest_boundaries [of ?s 6]
  from t s have "5 \<le> closestLeftBoundary ?s 6" "int (closestLeftBoundary ?s 6) < 6"
    by blast+
  then have L: "closestLeftBoundary ?s 6 = 5"
    by simp
  from t e(1,2) have "is_run_end ?s (closestRightBoundary ?s 6)"
    "6 < int (closestRightBoundary ?s 6)" "closestRightBoundary ?s 6 \<le> 8"
    by blast+
  moreover have "r = 7 \<or> r = 8" if "6 < int r" "r \<le> 8" for r :: nat
    using that by linarith
  ultimately have R: "closestRightBoundary ?s 6 = 8"
    using e(3) by metis
  have "\<not> is_run_start [0x20, 0x41, 0x42] 0"
    by (simp add: is_run_start_def is_word_def)
  then have "\<forall>i. is_run_start [0x20, 0x41, 0x42] i \<longrightarrow> \<not> int i < 1"
    by (metis int_ops(2) of_nat_less_iff less_one)
  with closest_boundaries [of "[0x20, 0x41, 0x42]" 1]
  have 3: "closestLeftBoundary [0x20, 0x41, 0x42] 1 = 0"
    by blast
  have "\<not> is_run_end [0x41, 0x42, 0x20] 3"
    by (simp add: is_run_end_def is_word_def)
  moreover have "j = 3" if "is_run_end [0x41, 0x42, 0x20] j" "2 < int j" for j
    using that by (simp add: is_run_end_def)
  ultimately have "\<forall>j. is_run_end [0x41, 0x42, 0x20] j \<longrightarrow> \<not> 2 < int j"
    by blast
  with closest_boundaries [of "[0x41, 0x42, 0x20]" 2]
  have 4: "closestRightBoundary [0x41, 0x42, 0x20] 2 = 3"
    by simp
  from s(1) e(1) L R 3 4 show ?thesis by simp
qed

section \<open>Properties of isIncompleteInput\<close>

lemma endsWith_suffix: "endsWith s t \<longleftrightarrow> suffix t s"
proof
  assume "endsWith s t"
  then have "s = take (length s - length t) s @ t"
    by (metis endsWith_def append_take_drop_id)
  then show "suffix t s"
    by (metis suffixI)
next
  assume "suffix t s"
  then show "endsWith s t"
    by (auto simp: endsWith_def suffix_def)
qed

lemma match_count: "length (or_empty (match_all_char c input)) = count_list input c"
proof -
  have "filter (\<lambda>x. x = c) input = filter ((=) c) input"
    by (rule filter_cong) auto
  then show ?thesis
    by (simp add: or_empty_def match_all_char_def Let_def count_list_eq_length_filter)
qed

lemma concat_split_ops_from: "concat (split_ops_from seg s) = seg @ s"
  by (induction seg s rule: split_ops_from.induct) (simp_all split: list.splits)

lemma concat_split_ops: "concat (split_ops input) = input"
  by (simp add: split_ops_def concat_split_ops_from)

lemma split_ops_from_nonempty: "split_ops_from seg s \<noteq> []"
proof (induction s arbitrary: seg)
  case Nil
  show ?case by simp
next
  case (Cons c cs)
  show ?case
    using Cons.IH [of "seg @ [c]"] by (cases cs) simp_all
qed

lemma split_ops_nonempty: "split_ops input \<noteq> []"
  by (simp add: split_ops_def split_ops_from_nonempty)

lemmas eval_incomplete = isIncompleteInput_def trim_def is_js_space_def is_line_terminator_def
  match_all_char_def or_empty_def split_ops_def endsWith_def

section \<open>Claims about isIncompleteInput\<close>

text \<open>
  C2. For every input, \<open>isIncompleteInput\<close> is false when the input trims to the empty
  string, and otherwise it is true exactly when the number of single quotes is odd, or
  the number of double quotes is odd, or the last element of the split on \<open>||\<close>, \<open>|\<close>
  and \<open>&&\<close> trims to the empty string, or the input ends with one backslash but not
  with two. It is true for \<open>echo 'hello\<close> and for \<open>echo a &&\<close>, and false for
  \<open>echo hello\<close> and for \<open>echo a\<close> followed by two backslashes.
\<close>

theorem isIncompleteInput_spec:
  "isIncompleteInput input =
     (trim input \<noteq> []
      \<and> (odd (count_list input 0x27)
         \<or> odd (count_list input 0x22)
         \<or> trim (last (split_ops input)) = []
         \<or> (suffix [0x5C] input \<and> \<not> suffix [0x5C, 0x5C] input)))
   \<and> isIncompleteInput [0x65, 0x63, 0x68, 0x6F, 0x20, 0x27, 0x68, 0x65, 0x6C, 0x6C, 0x6F] = True
   \<and> isIncompleteInput [0x65, 0x63, 0x68, 0x6F, 0x20, 0x68, 0x65, 0x6C, 0x6C, 0x6F] = False
   \<and> isIncompleteInput [0x65, 0x63, 0x68, 0x6F, 0x20, 0x61, 0x20, 0x26, 0x26] = True
   \<and> isIncompleteInput [0x65, 0x63, 0x68, 0x6F, 0x20, 0x61, 0x20, 0x5C, 0x5C] = False"
proof -
  have "isIncompleteInput input =
     (trim input \<noteq> []
      \<and> (odd (count_list input 0x27)
         \<or> odd (count_list input 0x22)
         \<or> trim (last (split_ops input)) = []
         \<or> (suffix [0x5C] input \<and> \<not> suffix [0x5C, 0x5C] input)))"
    by (simp add: isIncompleteInput_def match_count endsWith_suffix odd_iff_mod_2_eq_one)
  moreover have "isIncompleteInput [0x65, 0x63, 0x68, 0x6F, 0x20, 0x27, 0x68, 0x65, 0x6C, 0x6C, 0x6F] = True"
    by (simp add: eval_incomplete)
  moreover have "isIncompleteInput [0x65, 0x63, 0x68, 0x6F, 0x20, 0x68, 0x65, 0x6C, 0x6C, 0x6F] = False"
    by (simp add: eval_incomplete)
  moreover have "isIncompleteInput [0x65, 0x63, 0x68, 0x6F, 0x20, 0x61, 0x20, 0x26, 0x26] = True"
    by (simp add: eval_incomplete)
  moreover have "isIncompleteInput [0x65, 0x63, 0x68, 0x6F, 0x20, 0x61, 0x20, 0x5C, 0x5C] = False"
    by (simp add: eval_incomplete)
  ultimately show ?thesis by blast
qed

theorem isIncompleteInput_spec_witness:
  "trim [0x6C, 0x73, 0x20, 0x7C, 0x20] \<noteq> []
   \<and> split_ops [0x6C, 0x73, 0x20, 0x7C, 0x20] = [[0x6C, 0x73, 0x20], [0x7C], [0x20]]
   \<and> isIncompleteInput [0x6C, 0x73, 0x20, 0x7C, 0x20] = True
   \<and> trim [0x20, 0x0A] = []
   \<and> isIncompleteInput [0x20, 0x0A] = False
   \<and> suffix [0x5C] [0x61 :: jschar, 0x5C] \<and> \<not> suffix [0x5C, 0x5C] [0x61 :: jschar, 0x5C]
   \<and> isIncompleteInput [0x61, 0x5C] = True"
proof -
  have t: "trim [0x6C, 0x73, 0x20, 0x7C, 0x20] \<noteq> []" "trim [0x20] = []" "trim [0x20, 0x0A] = []"
    "trim [0x61, 0x5C] \<noteq> []"
    by (simp_all add: trim_def is_js_space_def is_line_terminator_def)
  have s: "split_ops [0x6C, 0x73, 0x20, 0x7C, 0x20] = [[0x6C, 0x73, 0x20], [0x7C], [0x20]]"
    by (simp add: split_ops_def)
  have x: "suffix [0x5C] [0x61 :: jschar, 0x5C]" "\<not> suffix [0x5C, 0x5C] [0x61 :: jschar, 0x5C]"
    by (simp_all add: suffix_Cons)
  from isIncompleteInput_spec [of "[0x6C, 0x73, 0x20, 0x7C, 0x20]"]
  have 1: "isIncompleteInput [0x6C, 0x73, 0x20, 0x7C, 0x20] = True"
    by (simp add: t s)
  from isIncompleteInput_spec [of "[0x20, 0x0A]"]
  have 2: "isIncompleteInput [0x20, 0x0A] = False"
    by (simp add: t)
  from isIncompleteInput_spec [of "[0x61, 0x5C]"]
  have 3: "isIncompleteInput [0x61, 0x5C] = True"
    using t(4) x by simp
  from t s x 1 2 3 show ?thesis by simp
qed

section \<open>Properties of collectAutocompleteCandidates\<close>





section \<open>Claims about collectAutocompleteCandidates\<close>




end
